theory Spec2Isabelle
  imports Main "HOL-Library.Word" "HOL-Library.Finite_Map"
begin

section \<open>UCXXRT startup.cpp: table walkers, at-exit registry, pool policy\<close>

text \<open>
  Pointers are natural numbers, and \<open>0\<close> is \<open>nullptr\<close>. A function pointer (\<open>_PVFV\<close>,
  \<open>_PIFV\<close>, \<open>onexit_t\<close>) is the number that names the function; the cast between the
  pointer types keeps the number. What an invoked function does is outside the file: the
  model records every invocation, in order, in a trace of function pointers. The C \<open>int\<close>
  statuses are never computed with, only compared with zero and handed on, so they are
  integers.
\<close>

type_synonym ptr = nat
type_synonym PVFV = nat
type_synonym PIFV = nat
type_synonym onexit_t = nat

text \<open>
  Undefined behaviour of the C++ is a fault value: calling through a null function
  pointer, and reading through a pointer to no live object (past the end of the table's
  memory, or a record that has been deleted).
\<close>

datatype fault = NullCall | InvalidPointer

subsection \<open>The environment policy selector\<close>

text \<open>
  \<open>POOL_TYPE\<close>, \<open>RTL_OSVERSIONINFOW\<close>, \<open>NTSTATUS\<close> and \<open>NT_SUCCESS\<close> are declared by
  headers outside the source file. Of the enumeration only \<open>NonPagedPool\<close> is named by
  the code. \<open>ULONG\<close> is an unsigned 32-bit word, so \<open><\<close> is the unsigned comparison.
\<close>

datatype POOL_TYPE = NonPagedPool | PagedPool | NonPagedPoolNx

record RTL_OSVERSIONINFOW =
  dwMajorVersion :: "32 word"
  dwMinorVersion :: "32 word"

text \<open>The two globals of namespace \<open>ucxxrt\<close> that \<open>_initialize_pool\<close> writes.\<close>

record pool_policy =
  DefaultPoolType :: POOL_TYPE
  DefaultMdlProtection :: "32 word"

text \<open>
  Modelled from the spec: the macro \<open>NT_SUCCESS\<close> is not under src; the spec only tells
  a failed query from a successful one. A status is a signed 32-bit value and the host
  convention counts the non-negative ones as success.
\<close>

definition NT_SUCCESS :: "32 word \<Rightarrow> bool" where
  "NT_SUCCESS status = (0 \<le> sint status)"

text \<open>
  \<open>_initialize_pool\<close>. The call \<open>RtlGetVersion(&ver_info)\<close> is the host's: its returned
  status and the record it filled are the first two arguments.
\<close>

definition initialize_pool ::
  "32 word \<Rightarrow> RTL_OSVERSIONINFOW \<Rightarrow> pool_policy \<Rightarrow> pool_policy" where
  "initialize_pool status ver_info g =
     (if \<not> NT_SUCCESS status then g
      else if dwMajorVersion ver_info < 6
              \<or> (dwMajorVersion ver_info = 6 \<and> dwMinorVersion ver_info < 2)
      then g\<lparr>DefaultPoolType := NonPagedPool, DefaultMdlProtection := 0\<rparr>
      else g)"

subsection \<open>The table walkers\<close>

text \<open>
  The table lives in a block of memory \<open>mem\<close> of function pointers; \<open>first\<close>, \<open>last\<close> and
  the iterator are positions in it. The loop runs while \<open>it != last\<close>, so a range with
  \<open>last < first\<close> walks off the end of the memory, which is a fault.

  \<open>_initterm\<close>: the trace \<open>tr\<close> of invocations so far is threaded through.
\<close>

function initterm_loop :: "PVFV list \<Rightarrow> nat \<Rightarrow> nat \<Rightarrow> PVFV list \<Rightarrow> (fault \<times> PVFV list) + PVFV list" where
  "initterm_loop mem it lastp tr =
     (if it = lastp then Inr tr
      else if length mem \<le> it then Inl (InvalidPointer, tr)
      else if mem ! it = 0 then initterm_loop mem (it + 1) lastp tr
      else initterm_loop mem (it + 1) lastp (tr @ [mem ! it]))"
  by pat_completeness auto
termination
  by (relation "measure (\<lambda>(mem, it, lastp, tr). length mem - it)") auto

definition initterm :: "PVFV list \<Rightarrow> nat \<Rightarrow> nat \<Rightarrow> PVFV list \<Rightarrow> (fault \<times> PVFV list) + PVFV list" where
  "initterm mem first lastp tr = initterm_loop mem first lastp tr"

text \<open>
  \<open>_initterm_e\<close>. The status an entry returns is given by \<open>ret\<close>, from the invocations
  made before it and the function called, so that a function may answer differently on
  each call. The result is the returned status and the trace.
\<close>

function initterm_e_loop ::
  "(PIFV list \<Rightarrow> PIFV \<Rightarrow> int) \<Rightarrow> PIFV list \<Rightarrow> nat \<Rightarrow> nat \<Rightarrow> PIFV list
     \<Rightarrow> (fault \<times> PIFV list) + (int \<times> PIFV list)" where
  "initterm_e_loop ret mem it lastp tr =
     (if it = lastp then Inr (0, tr)
      else if length mem \<le> it then Inl (InvalidPointer, tr)
      else if mem ! it = 0 then initterm_e_loop ret mem (it + 1) lastp tr
      else (let result = ret tr (mem ! it) in
            if result \<noteq> 0 then Inr (result, tr @ [mem ! it])
            else initterm_e_loop ret mem (it + 1) lastp (tr @ [mem ! it])))"
  by pat_completeness auto
termination
  by (relation "measure (\<lambda>(ret, mem, it, lastp, tr). length mem - it)") auto

definition initterm_e ::
  "(PIFV list \<Rightarrow> PIFV \<Rightarrow> int) \<Rightarrow> PIFV list \<Rightarrow> nat \<Rightarrow> nat \<Rightarrow> PIFV list
     \<Rightarrow> (fault \<times> PIFV list) + (int \<times> PIFV list)" where
  "initterm_e ret mem first lastp tr = initterm_e_loop ret mem first lastp tr"

text \<open>The entries of the range \<open>[first, last)\<close>, and those of them that can be invoked.\<close>

definition range_entries :: "PVFV list \<Rightarrow> nat \<Rightarrow> nat \<Rightarrow> PVFV list" where
  "range_entries mem first lastp = take (lastp - first) (drop first mem)"

definition invocable :: "PVFV list \<Rightarrow> nat \<Rightarrow> nat \<Rightarrow> PVFV list" where
  "invocable mem first lastp = filter (\<lambda>f. f \<noteq> 0) (range_entries mem first lastp)"

subsection \<open>The callback registry\<close>

text \<open>
  \<open>struct onexit_entry\<close>: the fields \<open>_next\<close> and \<open>_destructor\<close>. The destructor of the
  struct calls \<open>_destructor\<close>; it runs when a record is deleted.
\<close>

record onexit_entry =
  e_next :: ptr
  e_destructor :: PVFV

text \<open>
  The heap holds the live records by address. The two static head pointers
  \<open>s_onexit_table\<close> and \<open>s_quick_onexit_table\<close> and the trace of invoked callbacks
  complete the state. Both heads start as \<open>nullptr\<close>.
\<close>

record state =
  heap :: "(ptr, onexit_entry) fmap"
  s_onexit_table :: ptr
  s_quick_onexit_table :: ptr
  trace :: "PVFV list"

definition initial_state :: "PVFV list \<Rightarrow> state" where
  "initial_state tr =
     \<lparr>heap = fmempty, s_onexit_table = 0, s_quick_onexit_table = 0, trace = tr\<rparr>"

text \<open>
  \<open>_register_onexit_function(table, function)\<close>. The allocator is not part of the
  file: \<open>entry\<close> is the address that \<open>new\<close> returned, \<open>nullptr\<close> when it failed. The
  constructor stores \<open>table\<close> and \<open>function\<close> in the new record. The assignment is to
  \<open>s_onexit_table\<close>, whatever \<open>table\<close> was.
\<close>

definition register_onexit_function :: "ptr \<Rightarrow> PVFV \<Rightarrow> ptr \<Rightarrow> state \<Rightarrow> int \<times> state" where
  "register_onexit_function table function entry s =
     (if 0 = entry then (- 1, s)
      else (0, s\<lparr>heap := fmupd entry \<lparr>e_next = table, e_destructor = function\<rparr> (heap s),
                 s_onexit_table := entry\<rparr>))"

text \<open>
  The loop of \<open>_execute_onexit_table\<close>. Each round reads \<open>entry->_next\<close>, deletes the
  record (its destructor calls the stored callback, then the memory is released) and
  moves on. Every round removes a live record, so the loop ends.
\<close>

function execute_onexit_loop :: "state \<Rightarrow> ptr \<Rightarrow> (fault \<times> state) + state" where
  "execute_onexit_loop s entry =
     (if entry = 0 then Inr s
      else case fmlookup (heap s) entry of
             None \<Rightarrow> Inl (InvalidPointer, s)
           | Some e \<Rightarrow>
               if e_destructor e = 0 then Inl (NullCall, s)
               else execute_onexit_loop
                      (s\<lparr>trace := trace s @ [e_destructor e], heap := fmdrop entry (heap s)\<rparr>)
                      (e_next e))"
  by pat_completeness auto
termination
proof (relation "measure (\<lambda>(s, entry). fcard (fmdom (heap s)))")
  show "wf (measure (\<lambda>(s, entry). fcard (fmdom (heap s))))"
    by simp
next
  fix s :: state and entry :: ptr and e :: onexit_entry
  assume "fmlookup (heap s) entry = Some e"
  then have "entry |\<in>| fmdom (heap s)"
    by (rule fmdomI)
  then have "fcard (fmdom (heap s) |-| {|entry|}) < fcard (fmdom (heap s))"
    by (rule fcard_fminus1_less)
  then show "((s\<lparr>trace := trace s @ [e_destructor e], heap := fmdrop entry (heap s)\<rparr>, e_next e),
              (s, entry)) \<in> measure (\<lambda>(s, entry). fcard (fmdom (heap s)))"
    by simp
qed

definition execute_onexit_table :: "ptr \<Rightarrow> state \<Rightarrow> (fault \<times> state) + (int \<times> state)" where
  "execute_onexit_table table s =
     (case execute_onexit_loop s table of
        Inl f \<Rightarrow> Inl f
      | Inr s' \<Rightarrow> Inr (0, s'))"

definition atexit :: "PVFV \<Rightarrow> ptr \<Rightarrow> state \<Rightarrow> int \<times> state" where
  "atexit function entry s = register_onexit_function (s_onexit_table s) function entry s"

definition at_quick_exit :: "PVFV \<Rightarrow> ptr \<Rightarrow> state \<Rightarrow> int \<times> state" where
  "at_quick_exit function entry s =
     register_onexit_function (s_quick_onexit_table s) function entry s"

definition onexit :: "onexit_t \<Rightarrow> ptr \<Rightarrow> state \<Rightarrow> onexit_t \<times> state" where
  "onexit function entry s =
     (case atexit function entry s of
        (r, s') \<Rightarrow> (if r = 0 then function else 0, s'))"

text \<open>\<open>_onexit\<close> (an Isabelle name cannot start with an underscore).\<close>

definition underscore_onexit :: "onexit_t \<Rightarrow> ptr \<Rightarrow> state \<Rightarrow> onexit_t \<times> state" where
  "underscore_onexit function entry s = onexit function entry s"

subsection \<open>Vocabulary for the claims\<close>

text \<open>
  \<open>chain h p as\<close>: following the \<open>_next\<close> links from \<open>p\<close> in heap \<open>h\<close> visits the live
  records at the addresses \<open>as\<close>, in this order, and then reaches \<open>nullptr\<close>.
\<close>

fun chain :: "(ptr, onexit_entry) fmap \<Rightarrow> ptr \<Rightarrow> ptr list \<Rightarrow> bool" where
  "chain h p [] = (p = 0)"
| "chain h p (a # as) =
     (p = a \<and> a \<noteq> 0 \<and>
      (case fmlookup h a of None \<Rightarrow> False | Some e \<Rightarrow> chain h (e_next e) as))"

text \<open>The callback stored at an address (null when no record lives there).\<close>

definition callback_at :: "(ptr, onexit_entry) fmap \<Rightarrow> ptr \<Rightarrow> PVFV" where
  "callback_at h a = (case fmlookup h a of None \<Rightarrow> 0 | Some e \<Rightarrow> e_destructor e)"

text \<open>The heap after the records at the given addresses have been released.\<close>

definition released :: "ptr list \<Rightarrow> (ptr, onexit_entry) fmap \<Rightarrow> (ptr, onexit_entry) fmap" where
  "released as h = fold fmdrop as h"

text \<open>The callbacks stored in any live record.\<close>

definition stored_callbacks :: "(ptr, onexit_entry) fmap \<Rightarrow> PVFV set" where
  "stored_callbacks h = e_destructor ` fmran' h"

text \<open>The state in which a call of \<open>_execute_onexit_table\<close> stopped, returning or faulting.\<close>

fun final_state :: "(fault \<times> state) + (int \<times> state) \<Rightarrow> state" where
  "final_state (Inl (f, s)) = s"
| "final_state (Inr (r, s)) = s"

text \<open>The callbacks invoked between state \<open>s\<close> and a later state \<open>s'\<close>.\<close>

definition invoked_since :: "state \<Rightarrow> state \<Rightarrow> PVFV list" where
  "invoked_since s s' = drop (length (trace s)) (trace s')"

text \<open>
  A run of registrations through \<open>atexit\<close>: each pair is the callback and the address
  the allocator returned for its record.
\<close>

fun atexit_all :: "(PVFV \<times> ptr) list \<Rightarrow> state \<Rightarrow> state" where
  "atexit_all [] s = s"
| "atexit_all ((function, entry) # rs) s = atexit_all rs (snd (atexit function entry s))"

text \<open>
  Draining the normal-exit slot: \<open>_execute_onexit_table\<close> called with the current value
  of \<open>s_onexit_table\<close>. The parameter is a pointer passed by value.
\<close>

definition drain_normal_exit :: "state \<Rightarrow> (fault \<times> state) + (int \<times> state)" where
  "drain_normal_exit s = execute_onexit_table (s_onexit_table s) s"

text \<open>
  The states the registry can be in: starting with both heads null, after any calls of
  the registration functions (the allocator fails, or returns an address that holds no
  live record) and any calls of \<open>_execute_onexit_table\<close> that returned.
\<close>

inductive reachable :: "state \<Rightarrow> bool" where
  start: "reachable (initial_state tr)"
| reg_atexit: "reachable s \<Longrightarrow> entry |\<notin>| fmdom (heap s) \<Longrightarrow>
     reachable (snd (atexit function entry s))"
| reg_at_quick_exit: "reachable s \<Longrightarrow> entry |\<notin>| fmdom (heap s) \<Longrightarrow>
     reachable (snd (at_quick_exit function entry s))"
| reg_onexit: "reachable s \<Longrightarrow> entry |\<notin>| fmdom (heap s) \<Longrightarrow>
     reachable (snd (onexit function entry s))"
| reg_underscore_onexit: "reachable s \<Longrightarrow> entry |\<notin>| fmdom (heap s) \<Longrightarrow>
     reachable (snd (underscore_onexit function entry s))"
| drain: "reachable s \<Longrightarrow> execute_onexit_table table s = Inr (r, s') \<Longrightarrow>
     reachable s'"

code_pred reachable .

section \<open>Auxiliary lemmas\<close>

subsection \<open>Ranges of a table\<close>

lemma range_entries_step:
  assumes "it < lastp" "lastp \<le> length mem"
  shows "range_entries mem it lastp = mem ! it # range_entries mem (Suc it) lastp"
proof -
  from assms have "drop it mem = mem ! it # drop (Suc it) mem"
    by (simp add: Cons_nth_drop_Suc)
  moreover from assms have "lastp - it = Suc (lastp - Suc it)"
    by simp
  ultimately show ?thesis
    by (simp add: range_entries_def)
qed

lemma range_entries_empty: "range_entries mem it it = []"
  by (simp add: range_entries_def)

lemma initterm_loop_valid:
  "it \<le> lastp \<Longrightarrow> lastp \<le> length mem \<Longrightarrow>
   initterm_loop mem it lastp tr = Inr (tr @ invocable mem it lastp)"
proof (induction mem it lastp tr rule: initterm_loop.induct)
  case (1 mem it lastp tr)
  show ?case
  proof (cases "it = lastp")
    case True
    then show ?thesis
      by (simp add: invocable_def range_entries_empty)
  next
    case False
    with "1.prems" have lt: "it < lastp" and inb: "\<not> length mem \<le> it"
      by simp_all
    have step: "range_entries mem it lastp = mem ! it # range_entries mem (Suc it) lastp"
      using lt "1.prems"(2) by (rule range_entries_step)
    show ?thesis
    proof (cases "mem ! it = 0")
      case True
      with False inb lt "1.prems" "1.IH"(1) [OF False inb True]
      show ?thesis
        by (simp add: invocable_def step)
    next
      case nz: False
      with False inb lt "1.prems" "1.IH"(2) [OF False inb nz]
      show ?thesis
        by (simp add: invocable_def step)
    qed
  qed
qed

lemma invocable_empty: "invocable mem it it = []"
  by (simp add: invocable_def range_entries_empty)

lemma invocable_skip:
  "it < lastp \<Longrightarrow> lastp \<le> length mem \<Longrightarrow> mem ! it = 0 \<Longrightarrow>
   invocable mem it lastp = invocable mem (Suc it) lastp"
  by (simp add: invocable_def range_entries_step)

lemma invocable_call:
  "it < lastp \<Longrightarrow> lastp \<le> length mem \<Longrightarrow> mem ! it \<noteq> 0 \<Longrightarrow>
   invocable mem it lastp = mem ! it # invocable mem (Suc it) lastp"
  by (simp add: invocable_def range_entries_step)

lemma initterm_e_loop_fail:
  "it \<le> lastp \<Longrightarrow> lastp \<le> length mem \<Longrightarrow> k < length (invocable mem it lastp) \<Longrightarrow>
   (\<forall>j<k. ret (tr @ take j (invocable mem it lastp)) (invocable mem it lastp ! j) = 0) \<Longrightarrow>
   ret (tr @ take k (invocable mem it lastp)) (invocable mem it lastp ! k) \<noteq> 0 \<Longrightarrow>
   initterm_e_loop ret mem it lastp tr =
     Inr (ret (tr @ take k (invocable mem it lastp)) (invocable mem it lastp ! k),
          tr @ take (Suc k) (invocable mem it lastp))"
proof (induction ret mem it lastp tr arbitrary: k rule: initterm_e_loop.induct)
  case (1 ret mem it lastp tr)
  show ?case
  proof (cases "it = lastp")
    case True
    with "1.prems"(3) show ?thesis
      by (simp add: invocable_empty)
  next
    case False
    with "1.prems" have lt: "it < lastp" and inb: "\<not> length mem \<le> it"
      by simp_all
    have le': "it + 1 \<le> lastp"
      using lt by simp
    show ?thesis
    proof (cases "mem ! it = 0")
      case True
      have eq: "invocable mem it lastp = invocable mem (it + 1) lastp"
        using invocable_skip [OF lt "1.prems"(2) True] by simp
      have "initterm_e_loop ret mem (it + 1) lastp tr =
              Inr (ret (tr @ take k (invocable mem (it + 1) lastp)) (invocable mem (it + 1) lastp ! k),
                   tr @ take (Suc k) (invocable mem (it + 1) lastp))"
        using "1.prems"(3-5) unfolding eq
        by (intro "1.IH"(1) [OF False inb True le' "1.prems"(2)])
      with False inb True show ?thesis
        by (simp add: eq)
    next
      case nz: False
      define f where "f = mem ! it"
      define fs where "fs = invocable mem (it + 1) lastp"
      have eq: "invocable mem it lastp = f # fs"
        using invocable_call [OF lt "1.prems"(2) nz] by (simp add: f_def fs_def)
      show ?thesis
      proof (cases "ret tr f = 0")
        case bad: False
        have "k = 0"
        proof (rule ccontr)
          assume "k \<noteq> 0"
          then have "0 < k" by simp
          with "1.prems"(4) have "ret (tr @ take 0 (invocable mem it lastp)) (invocable mem it lastp ! 0) = 0"
            by blast
          with bad show False
            by (simp add: eq)
        qed
        with False inb nz bad show ?thesis
          by (simp add: eq f_def [symmetric])
      next
        case good: True
        have "k \<noteq> 0"
        proof
          assume "k = 0"
          with "1.prems"(5) good show False
            by (simp add: eq)
        qed
        then obtain k' where k: "k = Suc k'"
          by (cases k) auto
        have p3: "k' < length fs"
          using "1.prems"(3) by (simp add: eq k)
        have p4: "\<forall>j<k'. ret ((tr @ [f]) @ take j fs) (fs ! j) = 0"
        proof (intro allI impI)
          fix j assume "j < k'"
          then have "Suc j < k" by (simp add: k)
          with "1.prems"(4) have "ret (tr @ take (Suc j) (invocable mem it lastp)) (invocable mem it lastp ! Suc j) = 0"
            by blast
          then show "ret ((tr @ [f]) @ take j fs) (fs ! j) = 0"
            by (simp add: eq)
        qed
        have p5: "ret ((tr @ [f]) @ take k' fs) (fs ! k') \<noteq> 0"
          using "1.prems"(5) by (simp add: eq k)
        have "initterm_e_loop ret mem (it + 1) lastp (tr @ [mem ! it]) =
                Inr (ret ((tr @ [f]) @ take k' fs) (fs ! k'), (tr @ [f]) @ take (Suc k') fs)"
          using p3 p4 p5 unfolding fs_def f_def
          by (intro "1.IH"(2) [OF False inb nz refl _ le' "1.prems"(2)]) (use good in \<open>simp_all add: f_def\<close>)
        with False inb nz good show ?thesis
          by (simp add: eq k f_def [symmetric])
      qed
    qed
  qed
qed

lemma initterm_e_loop_ok:
  "it \<le> lastp \<Longrightarrow> lastp \<le> length mem \<Longrightarrow>
   (\<forall>j<length (invocable mem it lastp).
       ret (tr @ take j (invocable mem it lastp)) (invocable mem it lastp ! j) = 0) \<Longrightarrow>
   initterm_e_loop ret mem it lastp tr = Inr (0, tr @ invocable mem it lastp)"
proof (induction ret mem it lastp tr rule: initterm_e_loop.induct)
  case (1 ret mem it lastp tr)
  show ?case
  proof (cases "it = lastp")
    case True
    then show ?thesis
      by (simp add: invocable_empty)
  next
    case False
    with "1.prems" have lt: "it < lastp" and inb: "\<not> length mem \<le> it"
      by simp_all
    have le': "it + 1 \<le> lastp"
      using lt by simp
    show ?thesis
    proof (cases "mem ! it = 0")
      case True
      have eq: "invocable mem it lastp = invocable mem (it + 1) lastp"
        using invocable_skip [OF lt "1.prems"(2) True] by simp
      have "initterm_e_loop ret mem (it + 1) lastp tr = Inr (0, tr @ invocable mem (it + 1) lastp)"
        using "1.prems"(3) unfolding eq
        by (intro "1.IH"(1) [OF False inb True le' "1.prems"(2)])
      with False inb True show ?thesis
        by (simp add: eq)
    next
      case nz: False
      define f where "f = mem ! it"
      define fs where "fs = invocable mem (it + 1) lastp"
      have eq: "invocable mem it lastp = f # fs"
        using invocable_call [OF lt "1.prems"(2) nz] by (simp add: f_def fs_def)
      have good: "ret tr f = 0"
        using "1.prems"(3) by (auto simp: eq)
      have p: "\<forall>j<length fs. ret ((tr @ [f]) @ take j fs) (fs ! j) = 0"
      proof (intro allI impI)
        fix j assume "j < length fs"
        then have "Suc j < length (invocable mem it lastp)" by (simp add: eq)
        with "1.prems"(3) have "ret (tr @ take (Suc j) (invocable mem it lastp)) (invocable mem it lastp ! Suc j) = 0"
          by blast
        then show "ret ((tr @ [f]) @ take j fs) (fs ! j) = 0"
          by (simp add: eq)
      qed
      have "initterm_e_loop ret mem (it + 1) lastp (tr @ [mem ! it]) = Inr (0, (tr @ [f]) @ fs)"
        using p unfolding fs_def f_def
        by (intro "1.IH"(2) [OF False inb nz refl _ le' "1.prems"(2)]) (use good in \<open>simp_all add: f_def\<close>)
      with False inb nz good show ?thesis
        by (simp add: eq f_def [symmetric])
    qed
  qed
qed

subsection \<open>Chains of records and the drain loop\<close>

lemma chain_unique: "chain h p as \<Longrightarrow> chain h p bs \<Longrightarrow> as = bs"
proof (induction as arbitrary: p bs)
  case Nil
  then show ?case by (cases bs) auto
next
  case (Cons a as)
  then show ?case
    by (cases bs) (auto split: option.splits)
qed

lemma chain_suffix:
  "chain h p as \<Longrightarrow> a \<in> set as \<Longrightarrow> \<exists>ys zs. as = ys @ a # zs \<and> chain h a (a # zs)"
proof (induction as arbitrary: p)
  case Nil
  then show ?case by simp
next
  case (Cons b bs)
  show ?case
  proof (cases "a = b")
    case True
    with Cons.prems(1) have "b # bs = [] @ a # bs \<and> chain h a (a # bs)"
      by simp
    then show ?thesis by blast
  next
    case False
    with Cons.prems(2) have mem: "a \<in> set bs" by simp
    from Cons.prems(1) obtain e where "fmlookup h b = Some e" "chain h (e_next e) bs"
      by (auto split: option.splits)
    from Cons.IH [OF this(2) mem] obtain ys zs where "bs = ys @ a # zs" "chain h a (a # zs)"
      by blast
    then have "b # bs = (b # ys) @ a # zs \<and> chain h a (a # zs)"
      by simp
    then show ?thesis by blast
  qed
qed

lemma chain_head_fresh:
  assumes "chain h p (a # as)"
  shows "a \<notin> set as"
proof
  assume "a \<in> set as"
  from assms obtain e where e: "fmlookup h a = Some e" "chain h (e_next e) as"
    by (auto split: option.splits)
  from chain_suffix [OF e(2) \<open>a \<in> set as\<close>] obtain ys zs
    where split: "as = ys @ a # zs" and sub: "chain h a (a # zs)"
    by blast
  from assms have "chain h a (a # as)" by simp
  with sub have "a # as = a # zs" by (rule chain_unique [rotated])
  with split show False by simp
qed

lemma chain_distinct: "chain h p as \<Longrightarrow> distinct as"
proof (induction as arbitrary: p)
  case Nil
  then show ?case by simp
next
  case (Cons a as)
  from Cons.prems have "a \<notin> set as" by (rule chain_head_fresh)
  moreover from Cons.prems Cons.IH have "distinct as"
    by (auto split: option.splits)
  ultimately show ?case by simp
qed

lemma chain_fmdrop: "chain h p as \<Longrightarrow> a \<notin> set as \<Longrightarrow> chain (fmdrop a h) p as"
  by (induction as arbitrary: p) (auto split: option.splits)

lemma chain_fmupd: "chain h p as \<Longrightarrow> a \<notin> set as \<Longrightarrow> chain (fmupd a e h) p as"
  by (induction as arbitrary: p) (auto split: option.splits)

lemma chain_live: "chain h p as \<Longrightarrow> a \<in> set as \<Longrightarrow> a |\<in>| fmdom h"
  by (induction as arbitrary: p) (auto split: option.splits intro: fmdomI)

lemma fmlookup_released:
  "fmlookup (released as h) x = (if x \<in> set as then None else fmlookup h x)"
  unfolding released_def
  by (induction as arbitrary: h) auto

lemma released_Cons: "released (a # as) h = released as (fmdrop a h)"
  by (simp add: released_def)

lemma callback_at_fmdrop:
  "a \<notin> set as \<Longrightarrow> x \<in> set as \<Longrightarrow> callback_at (fmdrop a h) x = callback_at h x"
  by (auto simp: callback_at_def)

lemma execute_onexit_loop_chain:
  "chain (heap s) p as \<Longrightarrow> \<forall>a \<in> set as. callback_at (heap s) a \<noteq> 0 \<Longrightarrow>
   execute_onexit_loop s p =
     Inr (s\<lparr>trace := trace s @ map (callback_at (heap s)) as, heap := released as (heap s)\<rparr>)"
proof (induction as arbitrary: s p)
  case Nil
  then show ?case
    by (simp add: released_def)
next
  case (Cons a as)
  from Cons.prems(1) obtain e where pa: "p = a" and nz: "a \<noteq> 0"
    and e: "fmlookup (heap s) a = Some e" and rest: "chain (heap s) (e_next e) as"
    by (auto split: option.splits)
  from Cons.prems(1) have fresh: "a \<notin> set as"
    by (rule chain_head_fresh)
  have cb: "callback_at (heap s) a = e_destructor e"
    by (simp add: callback_at_def e)
  with Cons.prems(2) have call: "e_destructor e \<noteq> 0"
    by simp
  define s1 where "s1 = s\<lparr>trace := trace s @ [e_destructor e], heap := fmdrop a (heap s)\<rparr>"
  have same: "map (callback_at (heap s1)) as = map (callback_at (heap s)) as"
    using fresh by (auto simp: s1_def callback_at_fmdrop)
  have "chain (heap s1) (e_next e) as"
    using rest fresh by (simp add: s1_def chain_fmdrop)
  moreover have "\<forall>x \<in> set as. callback_at (heap s1) x \<noteq> 0"
    using Cons.prems(2) fresh by (auto simp: s1_def callback_at_fmdrop)
  ultimately have "execute_onexit_loop s1 (e_next e) =
      Inr (s1\<lparr>trace := trace s1 @ map (callback_at (heap s1)) as, heap := released as (heap s1)\<rparr>)"
    by (rule Cons.IH)
  then have "execute_onexit_loop s1 (e_next e) =
      Inr (s\<lparr>trace := trace s @ map (callback_at (heap s)) (a # as),
             heap := released (a # as) (heap s)\<rparr>)"
    unfolding same by (simp add: s1_def cb released_Cons)
  moreover have "execute_onexit_loop s p = execute_onexit_loop s1 (e_next e)"
    using pa nz e call by (simp add: s1_def)
  ultimately show ?case by simp
qed

lemma execute_onexit_loop_null_exact:
  "chain (heap s) p as \<Longrightarrow> \<exists>a \<in> set as. callback_at (heap s) a = 0 \<Longrightarrow>
   execute_onexit_loop s p =
     Inl (NullCall,
          s\<lparr>trace := trace s @ map (callback_at (heap s))
                                  (takeWhile (\<lambda>a. callback_at (heap s) a \<noteq> 0) as),
            heap := released (takeWhile (\<lambda>a. callback_at (heap s) a \<noteq> 0) as) (heap s)\<rparr>)"
proof (induction as arbitrary: s p)
  case Nil
  then show ?case by simp
next
  case (Cons a as)
  from Cons.prems(1) obtain e where pa: "p = a" and nz: "a \<noteq> 0"
    and e: "fmlookup (heap s) a = Some e" and rest: "chain (heap s) (e_next e) as"
    by (auto split: option.splits)
  from Cons.prems(1) have fresh: "a \<notin> set as"
    by (rule chain_head_fresh)
  have cb: "callback_at (heap s) a = e_destructor e"
    by (simp add: callback_at_def e)
  show ?case
  proof (cases "e_destructor e = 0")
    case True
    have "takeWhile (\<lambda>x. callback_at (heap s) x \<noteq> 0) (a # as) = []"
      using True cb by simp
    moreover have "execute_onexit_loop s p = Inl (NullCall, s)"
      using pa nz e True by simp
    ultimately show ?thesis
      by (simp add: released_def)
  next
    case False
    define s1 where "s1 = s\<lparr>trace := trace s @ [e_destructor e], heap := fmdrop a (heap s)\<rparr>"
    have same: "\<And>x. x \<in> set as \<Longrightarrow> callback_at (heap s1) x = callback_at (heap s) x"
      using fresh by (simp add: s1_def callback_at_fmdrop)
    have tw: "takeWhile (\<lambda>x. callback_at (heap s1) x \<noteq> 0) as =
              takeWhile (\<lambda>x. callback_at (heap s) x \<noteq> 0) as"
      by (rule takeWhile_cong) (simp_all add: same)
    define pre where "pre = takeWhile (\<lambda>x. callback_at (heap s) x \<noteq> 0) as"
    have sub: "set pre \<subseteq> set as"
      unfolding pre_def by (auto dest: set_takeWhileD)
    have mp: "map (callback_at (heap s1)) pre = map (callback_at (heap s)) pre"
      using sub same by auto
    have full: "takeWhile (\<lambda>x. callback_at (heap s) x \<noteq> 0) (a # as) = a # pre"
      using False cb by (simp add: pre_def)
    from False cb Cons.prems(2) obtain x where x: "x \<in> set as" "callback_at (heap s) x = 0"
      by auto
    with same have "\<exists>x \<in> set as. callback_at (heap s1) x = 0"
      by auto
    moreover have "chain (heap s1) (e_next e) as"
      using rest fresh by (simp add: s1_def chain_fmdrop)
    ultimately have "execute_onexit_loop s1 (e_next e) =
       Inl (NullCall,
            s1\<lparr>trace := trace s1 @ map (callback_at (heap s1))
                                  (takeWhile (\<lambda>a. callback_at (heap s1) a \<noteq> 0) as),
               heap := released (takeWhile (\<lambda>a. callback_at (heap s1) a \<noteq> 0) as) (heap s1)\<rparr>)"
      by (rule Cons.IH [rotated])
    then have "execute_onexit_loop s1 (e_next e) =
       Inl (NullCall,
            s\<lparr>trace := trace s @ map (callback_at (heap s)) (a # pre),
              heap := released (a # pre) (heap s)\<rparr>)"
      unfolding tw pre_def [symmetric] mp
      by (simp add: s1_def cb released_Cons)
    moreover have "execute_onexit_loop s p = execute_onexit_loop s1 (e_next e)"
      using pa nz e False by (simp add: s1_def)
    ultimately show ?thesis
      unfolding full by simp
  qed
qed

lemma stored_callbacks_fmdrop: "stored_callbacks (fmdrop a h) \<subseteq> stored_callbacks h"
proof
  fix f assume "f \<in> stored_callbacks (fmdrop a h)"
  then obtain e where e: "e \<in> fmran' (fmdrop a h)" and f: "f = e_destructor e"
    by (auto simp: stored_callbacks_def)
  from e obtain k where "fmlookup (fmdrop a h) k = Some e"
    by (auto elim: fmran'E)
  then have "fmlookup h k = Some e"
    by (simp split: if_splits)
  then have "e \<in> fmran' h"
    by (rule fmran'I)
  with f show "f \<in> stored_callbacks h"
    by (simp add: stored_callbacks_def)
qed

lemma stored_callbacks_lookup: "fmlookup h a = Some e \<Longrightarrow> e_destructor e \<in> stored_callbacks h"
  by (auto simp: stored_callbacks_def intro: fmran'I)

lemma execute_onexit_loop_frame:
  "s' = (case execute_onexit_loop s p of Inl (f, t) \<Rightarrow> t | Inr t \<Rightarrow> t) \<Longrightarrow>
   s_onexit_table s' = s_onexit_table s \<and> s_quick_onexit_table s' = s_quick_onexit_table s \<and>
   (\<exists>xs. trace s' = trace s @ xs \<and> set xs \<subseteq> stored_callbacks (heap s))"
proof (induction s p arbitrary: s' rule: execute_onexit_loop.induct)
  case (1 s entry)
  show ?case
  proof (cases "entry = 0")
    case True
    with "1.prems" show ?thesis by simp
  next
    case nz: False
    show ?thesis
    proof (cases "fmlookup (heap s) entry")
      case None
      with nz "1.prems" show ?thesis by simp
    next
      case (Some e)
      show ?thesis
      proof (cases "e_destructor e = 0")
        case True
        with nz Some "1.prems" show ?thesis by simp
      next
        case False
        have "s' = (case execute_onexit_loop
                       (s\<lparr>trace := trace s @ [e_destructor e], heap := fmdrop entry (heap s)\<rparr>)
                       (e_next e) of Inl (f, t) \<Rightarrow> t | Inr t \<Rightarrow> t)"
          using nz Some False "1.prems" by simp
        from "1.IH" [OF nz Some False this]
        obtain xs where a: "s_onexit_table s' = s_onexit_table s"
          and b: "s_quick_onexit_table s' = s_quick_onexit_table s"
          and c: "trace s' = (trace s @ [e_destructor e]) @ xs"
          and d: "set xs \<subseteq> stored_callbacks (fmdrop entry (heap s))"
          by auto
        from d stored_callbacks_fmdrop have "set xs \<subseteq> stored_callbacks (heap s)"
          by blast
        with stored_callbacks_lookup [OF Some]
        have "set (e_destructor e # xs) \<subseteq> stored_callbacks (heap s)" by simp
        moreover from c have "trace s' = trace s @ (e_destructor e # xs)" by simp
        ultimately show ?thesis using a b by blast
      qed
    qed
  qed
qed

subsection \<open>Drains, reachable states and runs of registrations\<close>

lemma final_state_execute:
  "final_state (execute_onexit_table table s) =
     (case execute_onexit_loop s table of Inl (f, t) \<Rightarrow> t | Inr t \<Rightarrow> t)"
  by (simp add: execute_onexit_table_def split: sum.splits prod.splits)

lemma execute_onexit_table_invoked:
  "set (invoked_since s (final_state (execute_onexit_table table s))) \<subseteq> stored_callbacks (heap s)"
  using execute_onexit_loop_frame [OF final_state_execute, of table s]
  by (auto simp: invoked_since_def)

lemma execute_onexit_table_quick_head:
  "execute_onexit_table table s = Inr (r, s') \<Longrightarrow> s_quick_onexit_table s' = s_quick_onexit_table s"
  using execute_onexit_loop_frame [OF final_state_execute, of table s]
  by simp

lemma reachable_quick_null: "reachable s \<Longrightarrow> s_quick_onexit_table s = 0"
proof (induction rule: reachable.induct)
  case start
  show ?case by (simp add: initial_state_def)
next
  case (reg_atexit s entry f)
  then show ?case by (simp add: atexit_def register_onexit_function_def)
next
  case (reg_at_quick_exit s entry f)
  then show ?case by (simp add: at_quick_exit_def register_onexit_function_def)
next
  case (reg_onexit s entry f)
  then show ?case
    by (simp add: onexit_def atexit_def register_onexit_function_def)
next
  case (reg_underscore_onexit s entry f)
  then show ?case
    by (simp add: underscore_onexit_def onexit_def atexit_def register_onexit_function_def)
next
  case (drain s table r s')
  then show ?case by (simp add: execute_onexit_table_quick_head)
qed

lemma atexit_all_frame:
  "trace (atexit_all rs s) = trace s \<and>
   s_quick_onexit_table (atexit_all rs s) = s_quick_onexit_table s"
  by (induction rs s rule: atexit_all.induct)
     (simp_all add: atexit_def register_onexit_function_def)

lemma atexit_all_heap_other:
  "x \<notin> snd ` set rs \<Longrightarrow> fmlookup (heap (atexit_all rs s)) x = fmlookup (heap s) x"
  by (induction rs s rule: atexit_all.induct)
     (auto simp: atexit_def register_onexit_function_def)

lemma atexit_all_head:
  "\<forall>(f, p) \<in> set rs. p \<noteq> 0 \<Longrightarrow>
   s_onexit_table (atexit_all rs s) = (if rs = [] then s_onexit_table s else snd (last rs))"
  by (induction rs s rule: atexit_all.induct)
     (auto simp: atexit_def register_onexit_function_def)

lemma atexit_all_chain:
  "chain (heap s) (s_onexit_table s) as \<Longrightarrow> distinct (map snd rs) \<Longrightarrow>
   \<forall>(f, p) \<in> set rs. p \<noteq> 0 \<and> p |\<notin>| fmdom (heap s) \<Longrightarrow>
   chain (heap (atexit_all rs s)) (s_onexit_table (atexit_all rs s)) (rev (map snd rs) @ as) \<and>
   map (callback_at (heap (atexit_all rs s))) (rev (map snd rs) @ as) =
     rev (map fst rs) @ map (callback_at (heap s)) as"
proof (induction rs arbitrary: s as)
  case Nil
  then show ?case by simp
next
  case (Cons r rs)
  obtain f p where r: "r = (f, p)" by (cases r)
  from Cons.prems(3) have p: "p \<noteq> 0" "p |\<notin>| fmdom (heap s)"
    by (simp_all add: r)
  define e where "e = \<lparr>e_next = s_onexit_table s, e_destructor = f\<rparr>"
  define s1 where "s1 = s\<lparr>heap := fmupd p e (heap s), s_onexit_table := p\<rparr>"
  have step: "snd (atexit f p s) = s1"
    using p(1) by (simp add: atexit_def register_onexit_function_def s1_def e_def)
  have notin: "p \<notin> set as"
    using chain_live [OF Cons.prems(1)] p(2) by auto
  have c1: "chain (heap s1) (s_onexit_table s1) (p # as)"
    using p(1) chain_fmupd [OF Cons.prems(1) notin, of e] by (simp add: s1_def e_def)
  have d1: "distinct (map snd rs)"
    using Cons.prems(2) by simp
  have f1: "\<forall>(f, p) \<in> set rs. p \<noteq> 0 \<and> p |\<notin>| fmdom (heap s1)"
    using Cons.prems(2,3) by (force simp: s1_def r)
  have cb: "map (callback_at (heap s1)) (p # as) = f # map (callback_at (heap s)) as"
    using notin by (auto simp: s1_def e_def callback_at_def)
  have run: "atexit_all (r # rs) s = atexit_all rs s1"
    by (simp add: r step)
  have addrs: "rev (map snd (r # rs)) @ as = rev (map snd rs) @ p # as"
    and funs: "rev (map fst (r # rs)) @ map (callback_at (heap s)) as =
               rev (map fst rs) @ f # map (callback_at (heap s)) as"
    by (simp_all add: r)
  from Cons.IH [OF c1 d1 f1] show ?case
    unfolding run addrs funs cb .
qed

lemma atexit_all_released:
  assumes "\<forall>(f, p) \<in> set rs. p |\<notin>| fmdom (heap s)"
  shows "released (rev (map snd rs) @ as) (heap (atexit_all rs s)) = released as (heap s)"
proof (rule fmap_ext)
  fix x
  show "fmlookup (released (rev (map snd rs) @ as) (heap (atexit_all rs s))) x =
        fmlookup (released as (heap s)) x"
  proof (cases "x \<in> snd ` set rs")
    case True
    with assms have "x |\<notin>| fmdom (heap s)" by auto
    then have "fmlookup (heap s) x = None" by (rule fmdom_notD)
    with True show ?thesis
      by (simp add: fmlookup_released)
  next
    case False
    then show ?thesis
      by (simp add: fmlookup_released atexit_all_heap_other)
  qed
qed

section \<open>The claims\<close>

text \<open>
  Claim C2. On a valid range \<open>[first, last)\<close> of status-returning entries, count the
  non-null entries from 0. If entry \<open>k\<close> is the first that returns a nonzero status,
  \<open>_initterm_e\<close> invokes exactly the entries \<open>0..k\<close>, in ascending order, returns the
  status of entry \<open>k\<close>, and invokes nothing after it. If every non-null entry returns
  zero, all of them are invoked and the result is zero.
\<close>

theorem initterm_e_stops_at_first_failure:
  assumes "first \<le> lastp" and "lastp \<le> length mem"
  shows "(\<forall>k < length (invocable mem first lastp).
            (\<forall>j<k. ret (tr @ take j (invocable mem first lastp)) (invocable mem first lastp ! j) = 0) \<and>
            ret (tr @ take k (invocable mem first lastp)) (invocable mem first lastp ! k) \<noteq> 0
            \<longrightarrow> initterm_e ret mem first lastp tr =
                  Inr (ret (tr @ take k (invocable mem first lastp)) (invocable mem first lastp ! k),
                       tr @ take (Suc k) (invocable mem first lastp))) \<and>
         ((\<forall>j < length (invocable mem first lastp).
              ret (tr @ take j (invocable mem first lastp)) (invocable mem first lastp ! j) = 0)
            \<longrightarrow> initterm_e ret mem first lastp tr = Inr (0, tr @ invocable mem first lastp))"
  unfolding initterm_e_def
  using initterm_e_loop_fail [OF assms, of _ ret tr] initterm_e_loop_ok [OF assms, of ret tr]
  by blast

text \<open>
  A table whose second invocable entry fails, one where all succeed, and one where the
  same function succeeds on its first call and fails on its second.
\<close>

theorem initterm_e_stops_at_first_failure_witness:
  "initterm_e (\<lambda>tr f. if f = 7 then 3 else if f = 9 then 4 else 0) [0, 5, 0, 7, 9, 0] 1 5 []
     = Inr (3, [5, 7]) \<and>
   initterm_e (\<lambda>tr f. 0) [0, 5, 0, 7, 9, 0] 1 5 [] = Inr (0, [5, 7, 9]) \<and>
   initterm_e (\<lambda>tr f. if f = 5 \<and> 5 \<in> set tr then 2 else 0) [5, 0, 5, 8] 0 4 []
     = Inr (2, [5, 5])"
proof -
  have inv1: "invocable [0, 5, 0, 7, 9, 0] 1 5 = [5, 7, 9]"
    and inv2: "invocable [5, 0, 5, 8] 0 4 = [5, 5, 8]"
    by (simp_all add: invocable_def range_entries_def)
  have a: "initterm_e (\<lambda>tr f. if f = 7 then 3 else if f = 9 then 4 else 0) [0, 5, 0, 7, 9, 0] 1 5 []
     = Inr (3, [5, 7])"
    using initterm_e_stops_at_first_failure
      [of 1 5 "[0, 5, 0, 7, 9, 0]" "\<lambda>tr f. if f = 7 then 3 else if f = 9 then 4 else 0" "[]",
       unfolded inv1, THEN conjunct1, rule_format, of 1]
    by simp
  have b: "initterm_e (\<lambda>tr f. 0) [0, 5, 0, 7, 9, 0] 1 5 [] = Inr (0, [5, 7, 9])"
    using initterm_e_stops_at_first_failure
      [of 1 5 "[0, 5, 0, 7, 9, 0]" "\<lambda>tr f. 0" "[]", unfolded inv1, THEN conjunct2]
    by simp
  have c: "initterm_e (\<lambda>tr f. if f = 5 \<and> 5 \<in> set tr then 2 else 0) [5, 0, 5, 8] 0 4 []
     = Inr (2, [5, 5])"
    using initterm_e_stops_at_first_failure
      [of 0 4 "[5, 0, 5, 8]" "\<lambda>tr f. if f = 5 \<and> 5 \<in> set tr then 2 else 0" "[]",
       unfolded inv2, THEN conjunct1, rule_format, of 1]
    by simp
  from a b c show ?thesis by simp
qed

text \<open>
  Claim C6. \<open>_initialize_pool\<close>: when the version query fails, the two policy values
  stay as they were; when it succeeds with a major version below 6, or with major
  version 6 and a minor version below 2, the pool type becomes \<open>NonPagedPool\<close> and the
  MDL protection becomes zero; when it succeeds with any other version, both values stay
  as they were.
\<close>

theorem initialize_pool_policy:
  "(\<not> NT_SUCCESS status \<longrightarrow> initialize_pool status ver_info g = g) \<and>
   (NT_SUCCESS status \<and>
      (dwMajorVersion ver_info < 6 \<or> (dwMajorVersion ver_info = 6 \<and> dwMinorVersion ver_info < 2))
      \<longrightarrow> initialize_pool status ver_info g =
            g\<lparr>DefaultPoolType := NonPagedPool, DefaultMdlProtection := 0\<rparr>) \<and>
   (NT_SUCCESS status \<and>
      \<not> (dwMajorVersion ver_info < 6 \<or> (dwMajorVersion ver_info = 6 \<and> dwMinorVersion ver_info < 2))
      \<longrightarrow> initialize_pool status ver_info g = g)"
  by (simp add: initialize_pool_def)

text \<open>
  The failed query, and the versions (6,1), (5,7), (6,2) and (10,0), on the defaults
  \<open>NonPagedPoolNx\<close> and \<open>0x40000000\<close>.
\<close>

theorem initialize_pool_policy_witness:
  "\<not> NT_SUCCESS 0xC0000001 \<and> NT_SUCCESS 0 \<and>
   initialize_pool 0xC0000001 \<lparr>dwMajorVersion = 6, dwMinorVersion = 1\<rparr>
       \<lparr>DefaultPoolType = NonPagedPoolNx, DefaultMdlProtection = 0x40000000\<rparr>
     = \<lparr>DefaultPoolType = NonPagedPoolNx, DefaultMdlProtection = 0x40000000\<rparr> \<and>
   initialize_pool 0 \<lparr>dwMajorVersion = 6, dwMinorVersion = 1\<rparr>
       \<lparr>DefaultPoolType = NonPagedPoolNx, DefaultMdlProtection = 0x40000000\<rparr>
     = \<lparr>DefaultPoolType = NonPagedPool, DefaultMdlProtection = 0\<rparr> \<and>
   initialize_pool 0 \<lparr>dwMajorVersion = 5, dwMinorVersion = 7\<rparr>
       \<lparr>DefaultPoolType = NonPagedPoolNx, DefaultMdlProtection = 0x40000000\<rparr>
     = \<lparr>DefaultPoolType = NonPagedPool, DefaultMdlProtection = 0\<rparr> \<and>
   initialize_pool 0 \<lparr>dwMajorVersion = 6, dwMinorVersion = 2\<rparr>
       \<lparr>DefaultPoolType = NonPagedPoolNx, DefaultMdlProtection = 0x40000000\<rparr>
     = \<lparr>DefaultPoolType = NonPagedPoolNx, DefaultMdlProtection = 0x40000000\<rparr> \<and>
   initialize_pool 0 \<lparr>dwMajorVersion = 10, dwMinorVersion = 0\<rparr>
       \<lparr>DefaultPoolType = NonPagedPoolNx, DefaultMdlProtection = 0x40000000\<rparr>
     = \<lparr>DefaultPoolType = NonPagedPoolNx, DefaultMdlProtection = 0x40000000\<rparr>"
proof -
  have f: "\<not> NT_SUCCESS 0xC0000001" and t: "NT_SUCCESS 0"
    by (simp_all add: NT_SUCCESS_def)
  show ?thesis
    using f t
      initialize_pool_policy [of "0xC0000001" "\<lparr>dwMajorVersion = 6, dwMinorVersion = 1\<rparr>"
        "\<lparr>DefaultPoolType = NonPagedPoolNx, DefaultMdlProtection = 0x40000000\<rparr>"]
      initialize_pool_policy [of 0 "\<lparr>dwMajorVersion = 6, dwMinorVersion = 1\<rparr>"
        "\<lparr>DefaultPoolType = NonPagedPoolNx, DefaultMdlProtection = 0x40000000\<rparr>"]
      initialize_pool_policy [of 0 "\<lparr>dwMajorVersion = 5, dwMinorVersion = 7\<rparr>"
        "\<lparr>DefaultPoolType = NonPagedPoolNx, DefaultMdlProtection = 0x40000000\<rparr>"]
      initialize_pool_policy [of 0 "\<lparr>dwMajorVersion = 6, dwMinorVersion = 2\<rparr>"
        "\<lparr>DefaultPoolType = NonPagedPoolNx, DefaultMdlProtection = 0x40000000\<rparr>"]
      initialize_pool_policy [of 0 "\<lparr>dwMajorVersion = 10, dwMinorVersion = 0\<rparr>"
        "\<lparr>DefaultPoolType = NonPagedPoolNx, DefaultMdlProtection = 0x40000000\<rparr>"]
    by simp
qed

text \<open>
  Claim C7. On a valid range \<open>[first, last)\<close> of void-returning entries, \<open>_initterm\<close>
  returns after invoking exactly the non-null entries of the range, in ascending
  position, with no early exit; a null entry is never invoked; on an empty range, or a
  range of null entries only, nothing is invoked.
\<close>

theorem initterm_runs_all_non_null:
  assumes "first \<le> lastp" and "lastp \<le> length mem"
  shows "initterm mem first lastp tr = Inr (tr @ invocable mem first lastp) \<and>
         invocable mem first lastp = filter (\<lambda>f. f \<noteq> 0) (take (lastp - first) (drop first mem)) \<and>
         0 \<notin> set (invocable mem first lastp) \<and>
         (first = lastp \<or> (\<forall>f \<in> set (range_entries mem first lastp). f = 0)
            \<longrightarrow> initterm mem first lastp tr = Inr tr)"
proof -
  have run: "initterm mem first lastp tr = Inr (tr @ invocable mem first lastp)"
    unfolding initterm_def using assms by (rule initterm_loop_valid)
  have none: "first = lastp \<or> (\<forall>f \<in> set (range_entries mem first lastp). f = 0)
                \<Longrightarrow> invocable mem first lastp = []"
    by (auto simp: invocable_def range_entries_def filter_empty_conv)
  show ?thesis
    using run none by (auto simp: invocable_def range_entries_def)
qed

text \<open>A table with null sentinels, an empty range, and a range of nulls.\<close>

theorem initterm_runs_all_non_null_witness:
  "initterm [0, 5, 0, 7, 9, 0] 1 5 [3] = Inr [3, 5, 7, 9] \<and>
   initterm [0, 5, 0, 7, 9, 0] 2 2 [3] = Inr [3] \<and>
   initterm [0, 0, 0, 7] 0 3 [3] = Inr [3]"
  using initterm_runs_all_non_null [of 1 5 "[0, 5, 0, 7, 9, 0]" "[3]"]
    initterm_runs_all_non_null [of 2 2 "[0, 5, 0, 7, 9, 0]" "[3]"]
    initterm_runs_all_non_null [of 0 3 "[0, 0, 0, 7]" "[3]"]
  by (simp add: invocable_def range_entries_def)

text \<open>
  Claim C1, as amended. Let the normal-exit slot hold a well-formed chain of records with
  non-null callbacks (the empty chain for an empty slot), and let \<open>c1, ..., cn\<close> be
  non-null callbacks registered through \<open>atexit\<close>, every allocation succeeding at a fresh
  address. Draining the slot then returns 0 after invoking \<open>cn, ..., c1\<close>, each exactly
  once and in this order, followed by the callbacks chained before, and every record is
  released. The drain does not write the head slot: after it the slot still holds the
  address of the last record registered.
\<close>

theorem atexit_drain_lifo:
  assumes "chain (heap s) (s_onexit_table s) as"
    and "\<forall>a \<in> set as. callback_at (heap s) a \<noteq> 0"
    and "distinct (map snd rs)"
    and "\<forall>(f, p) \<in> set rs. f \<noteq> 0 \<and> p \<noteq> 0 \<and> p |\<notin>| fmdom (heap s)"
  shows "drain_normal_exit (atexit_all rs s) =
           Inr (0, s\<lparr>trace := trace s @ rev (map fst rs) @ map (callback_at (heap s)) as,
                     heap := released as (heap s),
                     s_onexit_table := (if rs = [] then s_onexit_table s else snd (last rs))\<rparr>)"
proof -
  define t where "t = atexit_all rs s"
  have fresh: "\<forall>(f, p) \<in> set rs. p \<noteq> 0 \<and> p |\<notin>| fmdom (heap s)"
    using assms(4) by auto
  from atexit_all_chain [OF assms(1,3) fresh]
  have c: "chain (heap t) (s_onexit_table t) (rev (map snd rs) @ as)"
    and cb: "map (callback_at (heap t)) (rev (map snd rs) @ as) =
               rev (map fst rs) @ map (callback_at (heap s)) as"
    by (simp_all add: t_def)
  have nz: "\<forall>a \<in> set (rev (map snd rs) @ as). callback_at (heap t) a \<noteq> 0"
  proof
    fix a assume a: "a \<in> set (rev (map snd rs) @ as)"
    have A: "0 \<notin> set (rev (map fst rs) @ map (callback_at (heap s)) as)"
      using assms(2,4) by auto
    have B: "0 \<notin> set (map (callback_at (heap t)) (rev (map snd rs) @ as))"
      unfolding cb by (rule A)
    from a have "callback_at (heap t) a \<in> callback_at (heap t) ` set (rev (map snd rs) @ as)"
      by (rule imageI)
    then have "callback_at (heap t) a \<in> set (map (callback_at (heap t)) (rev (map snd rs) @ as))"
      by (simp only: set_map)
    with B show "callback_at (heap t) a \<noteq> 0"
      by metis
  qed
  have rel: "released (rev (map snd rs) @ as) (heap t) = released as (heap s)"
    unfolding t_def using assms(4) by (intro atexit_all_released) auto
  have head: "s_onexit_table t = (if rs = [] then s_onexit_table s else snd (last rs))"
    unfolding t_def using assms(4) by (intro atexit_all_head) auto
  have tr: "trace t = trace s" and qh: "s_quick_onexit_table t = s_quick_onexit_table s"
    by (simp_all add: t_def atexit_all_frame)
  have "execute_onexit_loop t (s_onexit_table t) =
          Inr (t\<lparr>trace := trace t @ map (callback_at (heap t)) (rev (map snd rs) @ as),
                 heap := released (rev (map snd rs) @ as) (heap t)\<rparr>)"
    using c nz by (rule execute_onexit_loop_chain)
  also have "t\<lparr>trace := trace t @ map (callback_at (heap t)) (rev (map snd rs) @ as),
                 heap := released (rev (map snd rs) @ as) (heap t)\<rparr> =
             s\<lparr>trace := trace s @ rev (map fst rs) @ map (callback_at (heap s)) as,
                     heap := released as (heap s),
                     s_onexit_table := (if rs = [] then s_onexit_table s else snd (last rs))\<rparr>"
    unfolding cb rel tr using head qh
    by (intro state.equality) simp_all
  finally show ?thesis
    by (simp add: drain_normal_exit_def execute_onexit_table_def t_def)
qed

text \<open>Three registrations on the empty registry, then a drain.\<close>

theorem atexit_drain_lifo_witness:
  "drain_normal_exit (atexit_all [(1, 10), (2, 20), (3, 30)] (initial_state [])) =
     Inr (0, \<lparr>heap = fmempty, s_onexit_table = 30, s_quick_onexit_table = 0, trace = [3, 2, 1]\<rparr>)"
proof -
  have c: "chain (heap (initial_state [])) (s_onexit_table (initial_state [])) []"
    by (simp add: initial_state_def)
  have n: "\<forall>a \<in> set []. callback_at (heap (initial_state [])) a \<noteq> 0"
    by simp
  have d: "distinct (map snd [(1::nat, 10::nat), (2, 20), (3, 30)])"
    by simp
  have f: "\<forall>(f, p) \<in> set [(1::nat, 10::nat), (2, 20), (3, 30)].
             f \<noteq> 0 \<and> p \<noteq> 0 \<and> p |\<notin>| fmdom (heap (initial_state []))"
    by (simp add: initial_state_def)
  from atexit_drain_lifo [OF c n d f] show ?thesis
    by (simp add: initial_state_def released_def)
qed

text \<open>
  Claim C1 as stated fails in its second half. After \<open>c1, c2, c3\<close> are registered and
  drained, the head still holds the address 30 of the released record. Registering \<open>c4\<close>
  links the new record to it, and the second drain invokes \<open>c4\<close> and then reads the
  released record: it does not come back having invoked only \<open>c4\<close>.
\<close>

theorem second_drain_counterexample:
  "drain_normal_exit (atexit_all [(1, 10), (2, 20), (3, 30)] (initial_state [])) =
     Inr (0, \<lparr>heap = fmempty, s_onexit_table = 30, s_quick_onexit_table = 0, trace = [3, 2, 1]\<rparr>) \<and>
   drain_normal_exit (snd (atexit 4 40
       \<lparr>heap = fmempty, s_onexit_table = 30, s_quick_onexit_table = 0, trace = [3, 2, 1]\<rparr>)) =
     Inl (InvalidPointer,
          \<lparr>heap = fmempty, s_onexit_table = 40, s_quick_onexit_table = 0, trace = [3, 2, 1, 4]\<rparr>)"
  by (simp add: drain_normal_exit_def execute_onexit_table_def atexit_def
      register_onexit_function_def initial_state_def fmdrop_fmupd)

text \<open>
  Claim C3 against the code. With one callback registered at normal exit (head 10), a call
  of \<open>at_quick_exit\<close> whose allocation succeeds at address 20 returns 0, links the new
  record to the quick-exit head (null), leaves the quick-exit head null, and overwrites
  the normal-exit head with 20.
\<close>

theorem at_quick_exit_writes_normal_head:
  "s_onexit_table (snd (atexit 7 10 (initial_state []))) = 10 \<and>
   at_quick_exit 8 20 (snd (atexit 7 10 (initial_state []))) =
     (0, \<lparr>heap = fmupd 20 \<lparr>e_next = 0, e_destructor = 8\<rparr>
                  (fmupd 10 \<lparr>e_next = 0, e_destructor = 7\<rparr> fmempty),
          s_onexit_table = 20, s_quick_onexit_table = 0, trace = []\<rparr>)"
  by (simp add: at_quick_exit_def atexit_def register_onexit_function_def initial_state_def)

text \<open>
  Claim C4, as amended. From a head pointer whose chain is well formed and stores only
  non-null callbacks, \<open>_execute_onexit_table\<close> follows the next links, invokes the
  stored callback of each record exactly once, in chain order, releases every record and
  returns 0. It writes neither head slot, so the slot keeps the pointer it held. Draining
  a null head invokes nothing and changes nothing.
\<close>

theorem execute_onexit_table_drains_chain:
  assumes "chain (heap s) table as" and "\<forall>a \<in> set as. callback_at (heap s) a \<noteq> 0"
  shows "execute_onexit_table table s =
           Inr (0, s\<lparr>trace := trace s @ map (callback_at (heap s)) as,
                     heap := released as (heap s)\<rparr>) \<and>
         distinct as \<and>
         (\<forall>a \<in> set as. fmlookup (released as (heap s)) a = None) \<and>
         execute_onexit_table 0 s = Inr (0, s)"
  using execute_onexit_loop_chain [OF assms] chain_distinct [OF assms(1)]
  by (simp add: execute_onexit_table_def fmlookup_released)

text \<open>Two registrations, then a drain of the normal-exit slot.\<close>

theorem execute_onexit_table_drains_chain_witness:
  "drain_normal_exit (atexit_all [(7, 10), (8, 20)] (initial_state [])) =
     Inr (0, \<lparr>heap = fmempty, s_onexit_table = 20, s_quick_onexit_table = 0, trace = [8, 7]\<rparr>)"
proof -
  define s where "s = atexit_all [(7, 10), (8, 20)] (initial_state [])"
  have s: "s = \<lparr>heap = fmupd 20 \<lparr>e_next = 10, e_destructor = 8\<rparr>
                  (fmupd 10 \<lparr>e_next = 0, e_destructor = 7\<rparr> fmempty),
          s_onexit_table = 20, s_quick_onexit_table = 0, trace = []\<rparr>"
    by (simp add: s_def atexit_def register_onexit_function_def initial_state_def)
  have c: "chain (heap s) 20 [20, 10]"
    by (simp add: s)
  have n: "\<forall>a \<in> set [20, 10]. callback_at (heap s) a \<noteq> 0"
    by (simp add: s callback_at_def)
  have r: "released [20, 10] (heap s) = fmempty"
    by (simp add: s released_def fmdrop_fmupd)
  from execute_onexit_table_drains_chain [OF c n]
  show ?thesis
    unfolding s_def [symmetric] drain_normal_exit_def r
    by (simp add: s callback_at_def)
qed

text \<open>
  Claim C4 as stated fails: after one registration and a drain the head slot is not empty
  (it holds 10, the address of the released record), and a second drain in a row reads
  that released record instead of doing nothing.
\<close>

theorem drain_leaves_head_counterexample:
  "drain_normal_exit (snd (atexit 7 10 (initial_state []))) =
     Inr (0, \<lparr>heap = fmempty, s_onexit_table = 10, s_quick_onexit_table = 0, trace = [7]\<rparr>) \<and>
   drain_normal_exit
     \<lparr>heap = fmempty, s_onexit_table = 10, s_quick_onexit_table = 0, trace = [7]\<rparr> =
     Inl (InvalidPointer,
          \<lparr>heap = fmempty, s_onexit_table = 10, s_quick_onexit_table = 0, trace = [7]\<rparr>)"
  by (simp add: drain_normal_exit_def execute_onexit_table_def atexit_def
      register_onexit_function_def initial_state_def fmdrop_fmupd)

text \<open>
  Claim C5. When the allocation fails, \<open>_register_onexit_function\<close> (and with it
  \<open>atexit\<close> and \<open>at_quick_exit\<close>) returns \<open>-1\<close> and the whole state, both heads and every
  record, is unchanged. A later drain, from whatever head pointer it starts, does what it
  would have done without the attempt, and a callback that no live record stores is not
  invoked by it.
\<close>

theorem register_allocation_failure:
  "register_onexit_function table function 0 s = (- 1, s) \<and>
   atexit function 0 s = (- 1, s) \<and>
   at_quick_exit function 0 s = (- 1, s) \<and>
   execute_onexit_table table' (snd (register_onexit_function table function 0 s)) =
     execute_onexit_table table' s \<and>
   (function \<notin> stored_callbacks (heap s) \<longrightarrow>
      function \<notin> set (invoked_since s
         (final_state (execute_onexit_table table'
            (snd (register_onexit_function table function 0 s))))))"
  using execute_onexit_table_invoked [of s table']
  by (auto simp: register_onexit_function_def atexit_def at_quick_exit_def)

text \<open>A failed registration of callback 8 after callback 7 was registered.\<close>

theorem register_allocation_failure_witness:
  "8 \<notin> stored_callbacks (heap (snd (atexit 7 10 (initial_state [])))) \<and>
   atexit 8 0 (snd (atexit 7 10 (initial_state []))) = (- 1, snd (atexit 7 10 (initial_state []))) \<and>
   8 \<notin> set (invoked_since (snd (atexit 7 10 (initial_state [])))
      (final_state (execute_onexit_table 10
         (snd (register_onexit_function 10 8 0 (snd (atexit 7 10 (initial_state []))))))))"
proof -
  have h: "8 \<notin> stored_callbacks (heap (snd (atexit 7 10 (initial_state []))))"
    by (auto simp: stored_callbacks_def atexit_def register_onexit_function_def initial_state_def
        elim!: fmran'E split: if_splits)
  from h register_allocation_failure [of 10 8 "snd (atexit 7 10 (initial_state []))" 10]
  show ?thesis
    by blast
qed

text \<open>
  Claim C8. \<open>onexit\<close> and \<open>_onexit\<close> register through \<open>atexit\<close>: the state they leave is
  the one \<open>atexit\<close> leaves, they return the callback pointer itself when \<open>atexit\<close>
  returned 0, and null otherwise. \<open>atexit\<close> returns 0 exactly when the allocation
  succeeded.
\<close>

theorem onexit_wrappers_delegate:
  "onexit function entry s =
     (if fst (atexit function entry s) = 0 then function else 0, snd (atexit function entry s)) \<and>
   underscore_onexit function entry s = onexit function entry s \<and>
   (fst (atexit function entry s) = 0 \<longrightarrow>
      fst (onexit function entry s) = function \<and>
      fst (underscore_onexit function entry s) = function) \<and>
   (fst (atexit function entry s) \<noteq> 0 \<longrightarrow>
      fst (onexit function entry s) = 0 \<and> fst (underscore_onexit function entry s) = 0) \<and>
   (fst (atexit function entry s) = 0 \<longleftrightarrow> entry \<noteq> 0)"
  by (simp add: onexit_def underscore_onexit_def atexit_def register_onexit_function_def
      split: prod.splits)

text \<open>A successful and a failed registration through the wrappers.\<close>

theorem onexit_wrappers_delegate_witness:
  "fst (atexit 7 10 (initial_state [])) = 0 \<and>
   fst (onexit 7 10 (initial_state [])) = 7 \<and>
   fst (underscore_onexit 7 10 (initial_state [])) = 7 \<and>
   snd (onexit 7 10 (initial_state [])) = snd (atexit 7 10 (initial_state [])) \<and>
   fst (atexit 7 0 (initial_state [])) \<noteq> 0 \<and>
   fst (onexit 7 0 (initial_state [])) = 0 \<and>
   fst (underscore_onexit 7 0 (initial_state [])) = 0"
  using onexit_wrappers_delegate [of 7 10 "initial_state []"]
    onexit_wrappers_delegate [of 7 0 "initial_state []"]
  by (simp add: atexit_def register_onexit_function_def)

text \<open>
  Claim C9. In every reachable state the quick-exit head is null, since nothing writes
  it. So when the normal-exit chain is not empty and \<open>at_quick_exit\<close> allocates
  successfully, the new record has a null next link and becomes the normal-exit head:
  the chain from the normal-exit head is the new record alone and the chain from the
  quick-exit head is empty. A drain of the normal-exit slot then invokes the quick-exit
  callback only (a call through null when that callback is null); the records
  registered before stay in the heap, never invoked.
\<close>

theorem at_quick_exit_orphans_normal_chain:
  assumes "reachable s" and "chain (heap s) (s_onexit_table s) as" and "as \<noteq> []"
    and "entry \<noteq> 0" and "entry |\<notin>| fmdom (heap s)"
  shows "s_quick_onexit_table s = 0 \<and>
         at_quick_exit function entry s =
           (0, s\<lparr>heap := fmupd entry \<lparr>e_next = 0, e_destructor = function\<rparr> (heap s),
                  s_onexit_table := entry\<rparr>) \<and>
         chain (heap (snd (at_quick_exit function entry s)))
               (s_onexit_table (snd (at_quick_exit function entry s))) [entry] \<and>
         chain (heap (snd (at_quick_exit function entry s)))
               (s_quick_onexit_table (snd (at_quick_exit function entry s))) [] \<and>
         drain_normal_exit (snd (at_quick_exit function entry s)) =
           (if function = 0 then Inl (NullCall, snd (at_quick_exit function entry s))
            else Inr (0, s\<lparr>trace := trace s @ [function], s_onexit_table := entry\<rparr>)) \<and>
         (\<forall>a \<in> set as. a \<noteq> entry \<and>
              fmlookup (heap (final_state (drain_normal_exit (snd (at_quick_exit function entry s))))) a
                = fmlookup (heap s) a \<and>
              fmlookup (heap s) a \<noteq> None)"
proof -
  have q: "s_quick_onexit_table s = 0"
    using assms(1) by (rule reachable_quick_null)
  define s' where "s' = s\<lparr>heap := fmupd entry \<lparr>e_next = 0, e_destructor = function\<rparr> (heap s),
                  s_onexit_table := entry\<rparr>"
  have reg: "at_quick_exit function entry s = (0, s')"
    using assms(4) q by (simp add: at_quick_exit_def register_onexit_function_def s'_def)
  have restored: "fmdrop entry (fmupd entry \<lparr>e_next = 0, e_destructor = function\<rparr> (heap s)) = heap s"
    using assms(5) by (simp add: fmdrop_fmupd_same fmdrop_idle)
  have drain: "drain_normal_exit s' =
           (if function = 0 then Inl (NullCall, s')
            else Inr (0, s\<lparr>trace := trace s @ [function], s_onexit_table := entry\<rparr>))"
    using assms(4) restored
    by (simp add: drain_normal_exit_def execute_onexit_table_def s'_def)
  have old: "\<forall>a \<in> set as. a \<noteq> entry \<and>
              fmlookup (heap (final_state (drain_normal_exit s'))) a = fmlookup (heap s) a \<and>
              fmlookup (heap s) a \<noteq> None"
  proof
    fix a assume a: "a \<in> set as"
    from chain_live [OF assms(2) a] have live: "a |\<in>| fmdom (heap s)" .
    with assms(5) have ne: "a \<noteq> entry" by auto
    from live have "fmlookup (heap s) a \<noteq> None"
      by (simp add: fmlookup_dom_iff)
    moreover have "fmlookup (heap (final_state (drain_normal_exit s'))) a = fmlookup (heap s) a"
      unfolding drain using ne by (simp add: s'_def)
    ultimately show "a \<noteq> entry \<and>
              fmlookup (heap (final_state (drain_normal_exit s'))) a = fmlookup (heap s) a \<and>
              fmlookup (heap s) a \<noteq> None"
      using ne by simp
  qed
  have c1: "chain (heap s') (s_onexit_table s') [entry]"
    using assms(4) by (simp add: s'_def)
  have c2: "chain (heap s') (s_quick_onexit_table s') []"
    using q by (simp add: s'_def)
  show ?thesis
    unfolding reg snd_conv using q drain old c1 c2
    by (simp add: s'_def)
qed

text \<open>Callback 7 at normal exit, then callback 8 at quick exit, then a drain.\<close>

theorem at_quick_exit_orphans_normal_chain_witness:
  "reachable (snd (atexit 7 10 (initial_state []))) \<and>
   chain (heap (snd (atexit 7 10 (initial_state []))))
         (s_onexit_table (snd (atexit 7 10 (initial_state [])))) [10] \<and>
   at_quick_exit 8 20 (snd (atexit 7 10 (initial_state []))) =
     (0, \<lparr>heap = fmupd 20 \<lparr>e_next = 0, e_destructor = 8\<rparr>
                  (fmupd 10 \<lparr>e_next = 0, e_destructor = 7\<rparr> fmempty),
          s_onexit_table = 20, s_quick_onexit_table = 0, trace = []\<rparr>) \<and>
   drain_normal_exit (snd (at_quick_exit 8 20 (snd (atexit 7 10 (initial_state []))))) =
     Inr (0, \<lparr>heap = fmupd 10 \<lparr>e_next = 0, e_destructor = 7\<rparr> fmempty,
              s_onexit_table = 20, s_quick_onexit_table = 0, trace = [8]\<rparr>)"
proof -
  define s where "s = snd (atexit 7 10 (initial_state []))"
  have s: "s = \<lparr>heap = fmupd 10 \<lparr>e_next = 0, e_destructor = 7\<rparr> fmempty,
                s_onexit_table = 10, s_quick_onexit_table = 0, trace = []\<rparr>"
    by (simp add: s_def atexit_def register_onexit_function_def initial_state_def)
  have "10 |\<notin>| fmdom (heap (initial_state []))"
    by (simp add: initial_state_def)
  with reachable.start have r: "reachable s"
    unfolding s_def by (rule reachable.reg_atexit)
  have c: "chain (heap s) (s_onexit_table s) [10]"
    by (simp add: s)
  have n: "[10::nat] \<noteq> []" "(20::nat) \<noteq> 0" "20 |\<notin>| fmdom (heap s)"
    by (simp_all add: s)
  note all = at_quick_exit_orphans_normal_chain [OF r c n, of 8]
  have a: "at_quick_exit 8 20 s =
     (0, \<lparr>heap = fmupd 20 \<lparr>e_next = 0, e_destructor = 8\<rparr>
                  (fmupd 10 \<lparr>e_next = 0, e_destructor = 7\<rparr> fmempty),
          s_onexit_table = 20, s_quick_onexit_table = 0, trace = []\<rparr>)"
    using all [THEN conjunct2, THEN conjunct1] by (simp add: s)
  have d: "drain_normal_exit (snd (at_quick_exit 8 20 s)) =
     Inr (0, \<lparr>heap = fmupd 10 \<lparr>e_next = 0, e_destructor = 7\<rparr> fmempty,
              s_onexit_table = 20, s_quick_onexit_table = 0, trace = [8]\<rparr>)"
    using all [THEN conjunct2, THEN conjunct2, THEN conjunct2, THEN conjunct2, THEN conjunct1]
    by (simp add: s)
  from r c a d show ?thesis
    unfolding s_def [symmetric] by blast
qed

text \<open>
  Claim C10. \<open>atexit(nullptr)\<close> with a successful allocation returns 0 and stores a
  record whose callback is null. A drain has no null check: on a well-formed chain it
  invokes the stored callback of every record in chain order and releases the record,
  up to the first record whose callback is null; there it stops in a call through the
  null pointer, with that record and the ones behind it still live. It returns, having
  invoked and released the whole chain, exactly when no record of the chain stores a
  null callback.
\<close>

theorem null_callback_is_stored_and_called:
  "(entry \<noteq> 0 \<longrightarrow>
      atexit 0 entry s =
        (0, s\<lparr>heap := fmupd entry \<lparr>e_next = s_onexit_table s, e_destructor = 0\<rparr> (heap s),
               s_onexit_table := entry\<rparr>)) \<and>
   (chain (heap s) table as \<longrightarrow>
      execute_onexit_table table s =
        (if \<forall>a \<in> set as. callback_at (heap s) a \<noteq> 0
         then Inr (0, s\<lparr>trace := trace s @ map (callback_at (heap s)) as,
                         heap := released as (heap s)\<rparr>)
         else Inl (NullCall,
                   s\<lparr>trace := trace s @ map (callback_at (heap s))
                                    (takeWhile (\<lambda>a. callback_at (heap s) a \<noteq> 0) as),
                     heap := released (takeWhile (\<lambda>a. callback_at (heap s) a \<noteq> 0) as)
                               (heap s)\<rparr>)) \<and>
      ((\<exists>s'. execute_onexit_table table s = Inl (NullCall, s'))
         \<longleftrightarrow> (\<exists>a \<in> set as. callback_at (heap s) a = 0)))"
proof (intro conjI impI)
  assume "entry \<noteq> 0"
  then show "atexit 0 entry s =
        (0, s\<lparr>heap := fmupd entry \<lparr>e_next = s_onexit_table s, e_destructor = 0\<rparr> (heap s),
               s_onexit_table := entry\<rparr>)"
    by (simp add: atexit_def register_onexit_function_def)
next
  assume c: "chain (heap s) table as"
  show "execute_onexit_table table s =
        (if \<forall>a \<in> set as. callback_at (heap s) a \<noteq> 0
         then Inr (0, s\<lparr>trace := trace s @ map (callback_at (heap s)) as,
                         heap := released as (heap s)\<rparr>)
         else Inl (NullCall,
                   s\<lparr>trace := trace s @ map (callback_at (heap s))
                                    (takeWhile (\<lambda>a. callback_at (heap s) a \<noteq> 0) as),
                     heap := released (takeWhile (\<lambda>a. callback_at (heap s) a \<noteq> 0) as)
                               (heap s)\<rparr>))"
  proof (cases "\<forall>a \<in> set as. callback_at (heap s) a \<noteq> 0")
    case True
    from execute_onexit_loop_chain [OF c True] True show ?thesis
      by (simp add: execute_onexit_table_def)
  next
    case False
    then have "\<exists>a \<in> set as. callback_at (heap s) a = 0" by simp
    from execute_onexit_loop_null_exact [OF c this] False show ?thesis
      by (simp add: execute_onexit_table_def)
  qed
next
  assume c: "chain (heap s) table as"
  show "(\<exists>s'. execute_onexit_table table s = Inl (NullCall, s'))
         \<longleftrightarrow> (\<exists>a \<in> set as. callback_at (heap s) a = 0)"
  proof (cases "\<exists>a \<in> set as. callback_at (heap s) a = 0")
    case True
    from execute_onexit_loop_null_exact [OF c True] True show ?thesis
      by (simp add: execute_onexit_table_def)
  next
    case False
    then have "\<forall>a \<in> set as. callback_at (heap s) a \<noteq> 0" by simp
    from execute_onexit_loop_chain [OF c this] False show ?thesis
      by (simp add: execute_onexit_table_def)
  qed
qed

text \<open>
  Registering the null callback; and a chain 8, null, 7 whose drain invokes 8, releases
  its record and stops at the null callback.
\<close>

theorem null_callback_is_stored_and_called_witness:
  "atexit 0 10 (initial_state []) =
     (0, \<lparr>heap = fmupd 10 \<lparr>e_next = 0, e_destructor = 0\<rparr> fmempty,
          s_onexit_table = 10, s_quick_onexit_table = 0, trace = []\<rparr>) \<and>
   chain (heap (atexit_all [(7, 10), (0, 20), (8, 30)] (initial_state [])))
         (s_onexit_table (atexit_all [(7, 10), (0, 20), (8, 30)] (initial_state [])))
         [30, 20, 10] \<and>
   drain_normal_exit (atexit_all [(7, 10), (0, 20), (8, 30)] (initial_state [])) =
     Inl (NullCall,
          \<lparr>heap = fmupd 20 \<lparr>e_next = 10, e_destructor = 0\<rparr>
                   (fmupd 10 \<lparr>e_next = 0, e_destructor = 7\<rparr> fmempty),
           s_onexit_table = 30, s_quick_onexit_table = 0, trace = [8]\<rparr>)"
proof -
  define t where "t = atexit_all [(7, 10), (0, 20), (8, 30)] (initial_state [])"
  have t: "t = \<lparr>heap = fmupd 30 \<lparr>e_next = 20, e_destructor = 8\<rparr>
                   (fmupd 20 \<lparr>e_next = 10, e_destructor = 0\<rparr>
                     (fmupd 10 \<lparr>e_next = 0, e_destructor = 7\<rparr> fmempty)),
                s_onexit_table = 30, s_quick_onexit_table = 0, trace = []\<rparr>"
    by (simp add: t_def atexit_def register_onexit_function_def initial_state_def)
  have c: "chain (heap t) (s_onexit_table t) [30, 20, 10]"
    by (simp add: t)
  have cbs: "callback_at (heap t) 30 = 8" "callback_at (heap t) 20 = 0"
    "callback_at (heap t) 10 = 7"
    by (simp_all add: t callback_at_def)
  have pre: "takeWhile (\<lambda>a. callback_at (heap t) a \<noteq> 0) [30, 20, 10] = [30]"
    by (simp add: cbs)
  have no: "\<not> (\<forall>a \<in> set [30, 20, 10]. callback_at (heap t) a \<noteq> 0)"
    by (simp add: cbs)
  have rel: "released [30] (heap t) =
               fmupd 20 \<lparr>e_next = 10, e_destructor = 0\<rparr>
                   (fmupd 10 \<lparr>e_next = 0, e_destructor = 7\<rparr> fmempty)"
    by (simp add: t released_def fmdrop_fmupd)
  have a: "atexit 0 10 (initial_state []) =
     (0, \<lparr>heap = fmupd 10 \<lparr>e_next = 0, e_destructor = 0\<rparr> fmempty,
          s_onexit_table = 10, s_quick_onexit_table = 0, trace = []\<rparr>)"
    using null_callback_is_stored_and_called [of 10 "initial_state []", THEN conjunct1]
    by (simp add: initial_state_def)
  have "execute_onexit_table (s_onexit_table t) t =
          Inl (NullCall, t\<lparr>trace := trace t @ map (callback_at (heap t)) [30],
                           heap := released [30] (heap t)\<rparr>)"
    using null_callback_is_stored_and_called
            [of 0 t "s_onexit_table t" "[30, 20, 10]", THEN conjunct2, rule_format, OF c,
             THEN conjunct1]
    unfolding pre using no by simp
  then have d: "drain_normal_exit t =
     Inl (NullCall,
          \<lparr>heap = fmupd 20 \<lparr>e_next = 10, e_destructor = 0\<rparr>
                   (fmupd 10 \<lparr>e_next = 0, e_destructor = 7\<rparr> fmempty),
           s_onexit_table = 30, s_quick_onexit_table = 0, trace = [8]\<rparr>)"
    unfolding drain_normal_exit_def rel by (simp add: cbs) (simp add: t)
  from a c d show ?thesis
    unfolding t_def [symmetric] by blast
qed

end
